theory Spec2Isabelle
  imports Complex_Main "HOL-Library.Multiset"
begin

section \<open>Python values read from the JSON archive\<close>

text \<open>
  The program of \<^verbatim>\<open>src/main.py\<close> reads a decoded JSON document. A key of a JSON
  object is absent, present with the value \<^verbatim>\<open>null\<close>, or present with a value; the
  program tells the three apart (\<^verbatim>\<open>d.get(k)\<close> against \<^verbatim>\<open>d[k]\<close>), so a field of an
  object has three shapes. The values themselves have the types of the export format:
  identifiers, roles and texts are strings, timestamps are numbers, \<^verbatim>\<open>parts\<close> and
  \<^verbatim>\<open>children\<close> are lists. Keys that the program never reads are not represented, except
  through the flag that says whether an object whose emptiness is tested has further keys.

  Strings are lists of 8-bit characters and stand for ASCII text: case conversion and
  whitespace are those of Python on ASCII, and characters above 127 are left alone.
\<close>

datatype 'a field = Absent | Null | Val 'a

datatype py_error = KeyError | TypeError | AttributeError

text \<open>\<^verbatim>\<open>d.get(k)\<close>: Python's \<^verbatim>\<open>None\<close> (here \<open>None\<close>) for an absent key and for \<^verbatim>\<open>null\<close>.\<close>

definition get :: "'a field \<Rightarrow> 'a option" where
  "get f = (case f of Absent \<Rightarrow> None | Null \<Rightarrow> None | Val v \<Rightarrow> Some v)"

text \<open>\<^verbatim>\<open>d.get(k, default)\<close>: the default for an absent key only.\<close>

definition get_default :: "'a field \<Rightarrow> 'a \<Rightarrow> 'a option" where
  "get_default f d = (case f of Absent \<Rightarrow> Some d | Null \<Rightarrow> None | Val v \<Rightarrow> Some v)"

text \<open>\<^verbatim>\<open>d[k]\<close>: a \<^verbatim>\<open>KeyError\<close> for an absent key.\<close>

definition subscript :: "'a field \<Rightarrow> py_error + 'a option" where
  "subscript f = (case f of Absent \<Rightarrow> Inl KeyError | Null \<Rightarrow> Inr None | Val v \<Rightarrow> Inr (Some v))"

record part_dict =
  content_type :: "string field"
  language :: "string field"
  part_text :: "string field"

datatype part = PStr string | PDict part_dict | POther

record author =
  role :: "string field"

record content =
  parts :: "part list field"
  content_more :: bool

record message =
  author :: "author field"
  content :: "content field"
  create_time :: "real field"
  message_more :: bool

record node =
  node_id :: "string field"
  parent :: "string field"
  children :: "string list field"
  message :: "message field"

record conversation =
  title :: "string field"
  convo_create_time :: "real field"
  mapping :: "(string \<times> node) list field"

text \<open>Truthiness of a dictionary: it has at least one key.\<close>

definition content_truthy :: "content \<Rightarrow> bool" where
  "content_truthy c = (parts c \<noteq> Absent \<or> content_more c)"

definition message_truthy :: "message \<Rightarrow> bool" where
  "message_truthy m =
     (author m \<noteq> Absent \<or> content m \<noteq> Absent \<or> create_time m \<noteq> Absent \<or> message_more m)"

section \<open>String methods of Python, on ASCII\<close>

definition is_upper :: "char \<Rightarrow> bool" where
  "is_upper c = (65 \<le> (of_char c :: nat) \<and> (of_char c :: nat) \<le> 90)"

definition is_lower :: "char \<Rightarrow> bool" where
  "is_lower c = (97 \<le> (of_char c :: nat) \<and> (of_char c :: nat) \<le> 122)"

definition is_cased :: "char \<Rightarrow> bool" where
  "is_cased c = (is_upper c \<or> is_lower c)"

definition to_lower :: "char \<Rightarrow> char" where
  "to_lower c = (if is_upper c then char_of ((of_char c :: nat) + 32) else c)"

definition to_upper :: "char \<Rightarrow> char" where
  "to_upper c = (if is_lower c then char_of ((of_char c :: nat) - 32) else c)"

text \<open>\<^verbatim>\<open>str.isspace\<close> on ASCII: tab to carriage return, the four separators, the space.\<close>

definition is_space :: "char \<Rightarrow> bool" where
  "is_space c = ((9 \<le> (of_char c :: nat) \<and> (of_char c :: nat) \<le> 13)
               \<or> (28 \<le> (of_char c :: nat) \<and> (of_char c :: nat) \<le> 32))"


text \<open>
  \<^verbatim>\<open>str.title()\<close>: a character that follows a cased character is lowered, any other
  character is put in title case (upper case, on ASCII).
\<close>

fun title_from :: "bool \<Rightarrow> string \<Rightarrow> string" where
  "title_from previous_is_cased [] = []"
| "title_from previous_is_cased (c # cs) =
     (if previous_is_cased then to_lower c else to_upper c) # title_from (is_cased c) cs"

definition str_title :: "string \<Rightarrow> string" where
  "str_title s = title_from False s"

definition strip :: "string \<Rightarrow> string" where
  "strip s = rev (dropWhile is_space (rev (dropWhile is_space s)))"

section \<open>\<^verbatim>\<open>sanitize_filename\<close>\<close>

definition illegal_chars :: "char list" where
  "illegal_chars =
     [CHR 0x5C, CHR ''/'', CHR ''*'', CHR ''?'', CHR '':'', CHR 0x22, CHR ''<'', CHR ''>'', CHR ''|'']"

definition sanitize_filename :: "string \<Rightarrow> string" where
  "sanitize_filename name =
     (let sanitized = filter (\<lambda>c. c \<notin> set illegal_chars) name;
          sanitized = map (\<lambda>c. if c = CHR '' '' then CHR ''_'' else c) sanitized
      in take 100 sanitized)"

section \<open>\<^verbatim>\<open>format_message_part\<close>\<close>

text \<open>\<^verbatim>\<open>f"{code}"\<close>: the string itself, and \<^verbatim>\<open>None\<close> prints as its name.\<close>

definition fstr :: "string option \<Rightarrow> string" where
  "fstr v = (case v of None \<Rightarrow> ''None'' | Some s \<Rightarrow> s)"

text \<open>
  The result is a Python value: a string, or \<^verbatim>\<open>None\<close> when a \<^verbatim>\<open>text\<close> part carries
  \<^verbatim>\<open>"text": null\<close>.
\<close>

fun format_message_part :: "part \<Rightarrow> string option" where
  "format_message_part (PStr s) = Some s"
| "format_message_part (PDict p) =
     (if get (content_type p) = Some ''code'' then
        (let language = get_default (language p) '''';
             code = get_default (part_text p) ''''
         in Some (''\<newline>```python\<newline>'' @ fstr code @ ''\<newline>```\<newline>''))
      else if get (content_type p) = Some ''text'' then get_default (part_text p) ''''
      else Some '''')"
| "format_message_part POther = Some ''''"

section \<open>\<^verbatim>\<open>get_conversation_messages\<close>\<close>

subsection \<open>Root selection\<close>

text \<open>
  The mapping is a dictionary in insertion order: an association list. The first loop
  takes the first entry whose \<^verbatim>\<open>parent\<close> is absent or \<^verbatim>\<open>null\<close>.
\<close>

definition find_root :: "(string \<times> node) list \<Rightarrow> string option" where
  "find_root m = map_option fst (find (\<lambda>(node_id, node). get (parent node) = None) m)"

text \<open>The filter of the fallback, \<^verbatim>\<open>node.get('message')\<close>, is the truthiness of the message.\<close>

definition message_bearing :: "node \<Rightarrow> bool" where
  "message_bearing n = (case get (message n) of None \<Rightarrow> False | Some msg \<Rightarrow> message_truthy msg)"

text \<open>The sort key \<^verbatim>\<open>x['message']['create_time']\<close>.\<close>

definition create_time_key :: "node \<Rightarrow> py_error + real option" where
  "create_time_key x =
     (case message x of
        Absent \<Rightarrow> Inl KeyError
      | Null \<Rightarrow> Inl TypeError
      | Val msg \<Rightarrow> subscript (create_time msg))"

text \<open>Evaluating a list of results in order: the first exception wins.\<close>

fun sequence :: "('e + 'a) list \<Rightarrow> 'e + 'a list" where
  "sequence [] = Inr []"
| "sequence (r # rs) =
     (case r of Inl e \<Rightarrow> Inl e
      | Inr v \<Rightarrow> (case sequence rs of Inl e \<Rightarrow> Inl e | Inr vs \<Rightarrow> Inr (v # vs)))"

text \<open>
  \<^verbatim>\<open>sorted(xs, key=...)\<close> on keys already computed. The sort is stable. A list of fewer
  than two elements is returned without a comparison; otherwise every key is compared,
  and comparing \<^verbatim>\<open>None\<close> raises \<^verbatim>\<open>TypeError\<close>.
\<close>

definition py_sorted :: "'a list \<Rightarrow> real option list \<Rightarrow> py_error + 'a list" where
  "py_sorted xs keys =
     (case those keys of
        Some ks \<Rightarrow> Inr (map fst (sort_key snd (zip xs ks)))
      | None \<Rightarrow> if length xs < 2 then Inr xs else Inl TypeError)"

text \<open>
  The fallback: \<open>Inr None\<close> is the early \<^verbatim>\<open>return []\<close>; \<open>Inr (Some i)\<close> carries the value
  of \<^verbatim>\<open>sorted_nodes[0]['id']\<close>, which is \<^verbatim>\<open>None\<close> for \<^verbatim>\<open>"id": null\<close>.
\<close>

definition fallback_root :: "(string \<times> node) list \<Rightarrow> py_error + string option option" where
  "fallback_root m =
     (let candidates = filter message_bearing (map snd m) in
      case sequence (map create_time_key candidates) of
        Inl e \<Rightarrow> Inl e
      | Inr keys \<Rightarrow>
          (case py_sorted candidates keys of
             Inl e \<Rightarrow> Inl e
           | Inr sorted_nodes \<Rightarrow>
               (case sorted_nodes of
                  [] \<Rightarrow> Inr None
                | n # _ \<Rightarrow>
                    (case subscript (node_id n) of
                       Inl e \<Rightarrow> Inl e
                     | Inr i \<Rightarrow> Inr (Some i)))))"

subsection \<open>The body of the traversal loop\<close>

text \<open>\<^verbatim>\<open>message_data['author']['role']\<close>.\<close>

definition message_author_role :: "message \<Rightarrow> py_error + string option" where
  "message_author_role message_data =
     (case author message_data of
        Absent \<Rightarrow> Inl KeyError
      | Null \<Rightarrow> Inl TypeError
      | Val a \<Rightarrow> subscript (role a))"

text \<open>
  \<^verbatim>\<open>"".join(format_message_part(part) for part in content_parts)\<close>, where
  \<^verbatim>\<open>content_parts = message_data['content'].get('parts', [])\<close>: iterating \<^verbatim>\<open>None\<close> and
  joining a \<^verbatim>\<open>None\<close> item both raise \<^verbatim>\<open>TypeError\<close>.
\<close>

definition join_parts :: "content \<Rightarrow> py_error + string" where
  "join_parts c =
     (case get_default (parts c) [] of
        None \<Rightarrow> Inl TypeError
      | Some content_parts \<Rightarrow>
          (case those (map format_message_part content_parts) of
             None \<Rightarrow> Inl TypeError
           | Some strs \<Rightarrow> Inr (concat strs)))"

definition block :: "string \<Rightarrow> string \<Rightarrow> string" where
  "block author_role full_text =
     ''## '' @ author_role @ ''\<newline>\<newline>'' @ full_text @ ''\<newline>\<newline>---\<newline>\<newline>''"

text \<open>
  One pass through the loop body up to the append: the blocks that the node adds to
  \<^verbatim>\<open>messages\<close> (none or one), or the exception raised.
\<close>

definition visit :: "node \<Rightarrow> py_error + string list" where
  "visit node =
     (case get (message node) of
        None \<Rightarrow> Inr []
      | Some message_data \<Rightarrow>
          if \<not> message_truthy message_data then Inr []
          else (case get (content message_data) of
             None \<Rightarrow> Inr []
           | Some cont \<Rightarrow>
               if \<not> content_truthy cont then Inr []
               else (case message_author_role message_data of
                  Inl e \<Rightarrow> Inl e
                | Inr r \<Rightarrow>
                    if r = Some ''system'' then Inr []
                    else (case r of
                       None \<Rightarrow> Inl AttributeError
                     | Some role_str \<Rightarrow>
                         (case join_parts cont of
                            Inl e \<Rightarrow> Inl e
                          | Inr full_text \<Rightarrow>
                              if strip full_text \<noteq> []
                              then Inr [block (str_title role_str) full_text]
                              else Inr [])))))"

text \<open>\<^verbatim>\<open>children = node.get('children', [])\<close> and the test \<^verbatim>\<open>if children\<close>.\<close>

definition first_child :: "node \<Rightarrow> string option" where
  "first_child node =
     (case get_default (children node) [] of
        None \<Rightarrow> None
      | Some [] \<Rightarrow> None
      | Some (c # _) \<Rightarrow> Some c)"

subsection \<open>The traversal\<close>

text \<open>
  The \<^verbatim>\<open>while\<close> loop has no bound: the result is \<open>None\<close> when it runs forever,
  \<open>Some (Inl e)\<close> when an exception leaves it, \<open>Some (Inr messages)\<close> when it ends.
\<close>

partial_function (option) traverse ::
  "(string \<times> node) list \<Rightarrow> string \<Rightarrow> string list \<Rightarrow> (py_error + string list) option" where
  "traverse m current_node_id messages =
     (case map_of m current_node_id of
        None \<Rightarrow> Some (Inr messages)
      | Some node \<Rightarrow>
          (case visit node of
             Inl e \<Rightarrow> Some (Inl e)
           | Inr blocks \<Rightarrow>
               (case first_child node of
                  None \<Rightarrow> Some (Inr (messages @ blocks))
                | Some c \<Rightarrow> traverse m c (messages @ blocks))))"

declare traverse.simps [code]

definition get_conversation_messages :: "conversation \<Rightarrow> (py_error + string list) option" where
  "get_conversation_messages convo_data =
     (case mapping convo_data of
        Absent \<Rightarrow> Some (Inr [])
      | Null \<Rightarrow> Some (Inl AttributeError)
      | Val m \<Rightarrow>
          (case find_root m of
             Some root_node_id \<Rightarrow> traverse m root_node_id []
           | None \<Rightarrow>
               (case fallback_root m of
                  Inl e \<Rightarrow> Some (Inl e)
                | Inr None \<Rightarrow> Some (Inr [])
                | Inr (Some None) \<Rightarrow> Some (Inr [])
                | Inr (Some (Some root_node_id)) \<Rightarrow> traverse m root_node_id [])))"

section \<open>The loop of \<^verbatim>\<open>main\<close> over the conversations\<close>








section \<open>Notions of the specification\<close>


text \<open>
  The child edges of a mapping, taken from the \<^verbatim>\<open>children\<close> lists in order, and the relation
  they form. A mapping is a tree when no identifier is listed as a child twice (a node
  has one parent) and the relation has no cycle.
\<close>

definition child_ids :: "node \<Rightarrow> string list" where
  "child_ids node = (case get (children node) of None \<Rightarrow> [] | Some cs \<Rightarrow> cs)"

definition child_edges :: "(string \<times> node) list \<Rightarrow> (string \<times> string) list" where
  "child_edges m = concat (map (\<lambda>(k, node). map (Pair k) (child_ids node)) m)"

definition child_rel :: "(string \<times> node) list \<Rightarrow> (string \<times> string) set" where
  "child_rel m = set (child_edges m)"

text \<open>
  The main line from an identifier: the path that follows the first listed child of each
  node, down to a node without children or to an identifier that the mapping lacks.
\<close>

inductive main_line :: "(string \<times> node) list \<Rightarrow> string \<Rightarrow> string list \<Rightarrow> bool"
  for m :: "(string \<times> node) list" where
  absent: "map_of m k = None \<Longrightarrow> main_line m k []"
| leaf: "map_of m k = Some node \<Longrightarrow> first_child node = None \<Longrightarrow> main_line m k [k]"
| step: "map_of m k = Some node \<Longrightarrow> first_child node = Some c \<Longrightarrow> main_line m c line
         \<Longrightarrow> main_line m k (k # line)"

code_pred main_line .

text \<open>The blocks that the node under an identifier adds when it is visited.\<close>

definition node_blocks :: "(string \<times> node) list \<Rightarrow> string \<Rightarrow> string list" where
  "node_blocks m k =
     (case map_of m k of
        None \<Rightarrow> []
      | Some node \<Rightarrow> (case visit node of Inl e \<Rightarrow> [] | Inr blocks \<Rightarrow> blocks))"

text \<open>
  The states of the loop: from the identifier \<open>k\<close> with the messages \<open>acc\<close>, the loop
  comes to the head of an iteration with the identifier \<open>k'\<close> and the messages \<open>acc'\<close>.
\<close>

inductive loop_reaches ::
  "(string \<times> node) list \<Rightarrow> string \<Rightarrow> string list \<Rightarrow> string \<Rightarrow> string list \<Rightarrow> bool"
  for m :: "(string \<times> node) list" and k :: string and acc :: "string list" where
  start: "loop_reaches m k acc k acc"
| iterate: "loop_reaches m k acc k' acc' \<Longrightarrow> map_of m k' = Some node
            \<Longrightarrow> visit node = Inr blocks \<Longrightarrow> first_child node = Some c
            \<Longrightarrow> loop_reaches m k acc c (acc' @ blocks)"

text \<open>The identifier from which \<^verbatim>\<open>get_conversation_messages\<close> starts the traversal.\<close>

definition selected_root :: "(string \<times> node) list \<Rightarrow> string \<Rightarrow> bool" where
  "selected_root m root_id =
     (find_root m = Some root_id
      \<or> (find_root m = None \<and> fallback_root m = Inr (Some (Some root_id))))"

text \<open>The timestamp of the message of a node, when the node has both.\<close>

definition timestamp :: "node \<Rightarrow> real option" where
  "timestamp n = (case get (message n) of None \<Rightarrow> None | Some msg \<Rightarrow> get (create_time msg))"




section \<open>Example inputs\<close>

definition text_message :: "string \<Rightarrow> string \<Rightarrow> message" where
  "text_message r s =
     \<lparr>author = Val \<lparr>role = Val r\<rparr>,
      content = Val \<lparr>parts = Val [PStr s], content_more = False\<rparr>,
      create_time = Absent, message_more = False\<rparr>"

definition plain_node :: "string field \<Rightarrow> string list \<Rightarrow> message field \<Rightarrow> node" where
  "plain_node p cs msg = \<lparr>node_id = Absent, parent = p, children = Val cs, message = msg\<rparr>"

text \<open>Scenario A of the specification.\<close>

definition scenario_A_mapping :: "(string \<times> node) list" where
  "scenario_A_mapping =
     [(''root'', plain_node Null [''m1''] Absent),
      (''m1'', plain_node (Val ''root'') [] (Val (text_message ''user'' ''Hello'')))]"

definition scenario_A :: conversation where
  "scenario_A = \<lparr>title = Absent, convo_create_time = Absent, mapping = Val scenario_A_mapping\<rparr>"



text \<open>A node that lists itself as its only child.\<close>

definition self_loop_mapping :: "(string \<times> node) list" where
  "self_loop_mapping = [(''x'', plain_node Null [''x''] Absent)]"

definition self_loop :: conversation where
  "self_loop = \<lparr>title = Absent, convo_create_time = Absent, mapping = Val self_loop_mapping\<rparr>"

text \<open>A message with content and no \<^verbatim>\<open>author\<close> key, under the first child of the root.\<close>

definition authorless :: message where
  "authorless =
     \<lparr>author = Absent,
      content = Val \<lparr>parts = Val [PStr ''Hello''], content_more = False\<rparr>,
      create_time = Absent, message_more = False\<rparr>"

definition authorless_mapping :: "(string \<times> node) list" where
  "authorless_mapping =
     [(''root'', plain_node Null [''m1''] Absent),
      (''m1'', plain_node (Val ''root'') [] (Val authorless))]"

definition authorless_convo :: conversation where
  "authorless_convo =
     \<lparr>title = Val ''Broken'', convo_create_time = Val 0, mapping = Val authorless_mapping\<rparr>"

text \<open>
  A root with the children \<^verbatim>\<open>A\<close> and \<^verbatim>\<open>B\<close>, each with a child of its own; every node but the
  root carries a message.
\<close>

definition branching_mapping :: "(string \<times> node) list" where
  "branching_mapping =
     [(''root'', plain_node Null [''A'', ''B''] Absent),
      (''A'', plain_node (Val ''root'') [''A1''] (Val (text_message ''user'' ''first question''))),
      (''B'', plain_node (Val ''root'') [''B1''] (Val (text_message ''user'' ''edited question''))),
      (''A1'', plain_node (Val ''A'') [] (Val (text_message ''assistant'' ''first answer''))),
      (''B1'', plain_node (Val ''B'') [] (Val (text_message ''assistant'' ''second answer'')))]"

definition branching :: conversation where
  "branching = \<lparr>title = Val ''Branches'', convo_create_time = Val 0, mapping = Val branching_mapping\<rparr>"

text \<open>
  A mapping without a parentless node whose only node carries a message with a timestamp
  and, as the nodes of Scenario A, no \<^verbatim>\<open>id\<close> key of its own.
\<close>

definition stamped :: "string \<Rightarrow> string \<Rightarrow> real \<Rightarrow> message" where
  "stamped r s t = (text_message r s)\<lparr>create_time := Val t\<rparr>"

definition orphan_node :: node where
  "orphan_node = plain_node (Val ''p'') [] (Val (stamped ''user'' ''Hello'' 1))"

definition orphan_mapping :: "(string \<times> node) list" where
  "orphan_mapping = [(''a'', orphan_node)]"

definition orphan :: conversation where
  "orphan = \<lparr>title = Absent, convo_create_time = Absent, mapping = Val orphan_mapping\<rparr>"

text \<open>
  A mapping without a parentless node whose nodes carry their key as \<^verbatim>\<open>id\<close>; the second
  node has the earlier message.
\<close>

definition rootless_mapping :: "(string \<times> node) list" where
  "rootless_mapping =
     [(''n1'', \<lparr>node_id = Val ''n1'', parent = Val ''n0'', children = Val [''n2''],
               message = Val (stamped ''user'' ''later'' 20)\<rparr>),
      (''n2'', \<lparr>node_id = Val ''n2'', parent = Val ''n1'', children = Val [],
               message = Val (stamped ''assistant'' ''earlier'' 10)\<rparr>)]"

definition rootless :: conversation where
  "rootless = \<lparr>title = Absent, convo_create_time = Absent, mapping = Val rootless_mapping\<rparr>"




section \<open>Rendering of parts\<close>

text \<open>
  C6. A structured part with \<^verbatim>\<open>content_type\<close> \<^verbatim>\<open>code\<close> and text \<open>t\<close> is rendered as the
  text inside a fenced block whose language tag is the fixed string \<^verbatim>\<open>python\<close>, whatever
  the \<^verbatim>\<open>language\<close> field of the part holds (absent, \<^verbatim>\<open>null\<close> or any string); the text
  \<^verbatim>\<open>print(1)\<close> gives the block of Scenario B.
\<close>

theorem code_fence_tag_fixed:
  "format_message_part (PDict \<lparr>content_type = Val ''code'', language = l, part_text = Val t\<rparr>)
     = Some (''\<newline>```python\<newline>'' @ t @ ''\<newline>```\<newline>'')
   \<and> format_message_part
        (PDict \<lparr>content_type = Val ''code'', language = l, part_text = Val ''print(1)''\<rparr>)
     = Some ''\<newline>```python\<newline>print(1)\<newline>```\<newline>''"
  by (simp add: get_def get_default_def fstr_def)

theorem code_fence_tag_fixed_witness:
  "format_message_part
     (PDict \<lparr>content_type = Val ''code'', language = Val ''rust'', part_text = Val ''fn main() {}''\<rparr>)
     = Some ''\<newline>```python\<newline>fn main() {}\<newline>```\<newline>''"
  using code_fence_tag_fixed [of "Val ''rust''" "''fn main() {}''"] by simp

section \<open>File names\<close>





lemma sanitize_filename_length: "length (sanitize_filename s) \<le> 100"
  by (simp add: sanitize_filename_def Let_def)

lemma sanitize_filename_chars:
  "c \<in> set (sanitize_filename s) \<Longrightarrow> c \<notin> set illegal_chars \<and> c \<noteq> CHR '' ''"
  by (auto simp: sanitize_filename_def Let_def illegal_chars_def dest!: in_set_takeD)



section \<open>Root selection\<close>

lemma find_Some_holds: "find P xs = Some x \<Longrightarrow> x \<in> set xs \<and> P x"
  by (induction xs) (auto split: if_splits)

lemma find_root_unique:
  assumes "(k, n) \<in> set m" and "get (parent n) = None"
    and "\<And>k' n'. (k', n') \<in> set m \<Longrightarrow> get (parent n') = None \<Longrightarrow> k' = k"
  shows "find_root m = Some k"
proof (cases "find (\<lambda>(node_id, node). get (parent node) = None) m")
  case None
  with assms(1,2) show ?thesis by (force simp: find_None_iff)
next
  case (Some e)
  then have "e \<in> set m" and "get (parent (snd e)) = None"
    by (auto dest: find_Some_holds split: prod.splits)
  with assms(3) [of "fst e" "snd e"] have "fst e = k" by simp
  with Some show ?thesis by (simp add: find_root_def)
qed

text \<open>
  C3. In a mapping (a dictionary: its keys are distinct) where exactly one node, \<open>n\<close>
  under key \<open>k\<close>, has an absent or \<^verbatim>\<open>null\<close> parent, that node is the root: for every order
  \<open>m'\<close> of the entries the first loop selects \<open>k\<close>, the entry under \<open>k\<close> is \<open>n\<close>, and the
  traversal starts there.
\<close>

theorem root_selection:
  assumes "mset m' = mset m" and "distinct (map fst m)"
    and "filter (\<lambda>(k', n'). get (parent n') = None) m = [(k, n)]"
  shows "find_root m' = Some k \<and> map_of m' k = Some n
         \<and> get_conversation_messages \<lparr>title = t, convo_create_time = ct, mapping = Val m'\<rparr>
             = traverse m' k []"
proof -
  let ?P = "\<lambda>(k', n'). get (parent n') = None"
  from assms(1) have s: "set m' = set m" by (rule mset_eq_setD)
  from assms(1) have "mset (map fst m') = mset (map fst m)" by simp
  with assms(2) have d: "distinct (map fst m')" by (metis mset_eq_imp_distinct_iff)
  have "(k, n) \<in> set (filter ?P m)" unfolding assms(3) by simp
  then have in_m: "(k, n) \<in> set m" and p: "get (parent n) = None" by auto
  have u: "k' = k" if "(k', n') \<in> set m" and "get (parent n') = None" for k' n'
  proof -
    from that have "(k', n') \<in> set (filter ?P m)" by simp
    then have "(k', n') \<in> set [(k, n)]" unfolding assms(3) .
    then show ?thesis by simp
  qed
  have r: "find_root m' = Some k"
  proof (rule find_root_unique [of k n])
    show "(k, n) \<in> set m'" using in_m s by simp
    show "get (parent n) = None" by (rule p)
    show "k' = k" if "(k', n') \<in> set m'" and "get (parent n') = None" for k' n'
      using that s by (intro u [of k' n']) simp_all
  qed
  moreover from d in_m s have "map_of m' k = Some n" by simp
  ultimately show ?thesis by (simp add: get_conversation_messages_def)
qed

theorem root_selection_witness:
  "mset (rev scenario_A_mapping) = mset scenario_A_mapping
   \<and> distinct (map fst scenario_A_mapping)
   \<and> filter (\<lambda>(k', n'). get (parent n') = None) scenario_A_mapping
       = [(''root'', plain_node Null [''m1''] Absent)]
   \<and> find_root (rev scenario_A_mapping) = Some ''root''
   \<and> find_root scenario_A_mapping = Some ''root''"
proof -
  have a: "mset (rev scenario_A_mapping) = mset scenario_A_mapping" by simp
  have a': "mset scenario_A_mapping = mset scenario_A_mapping" by simp
  have b: "distinct (map fst scenario_A_mapping)" by (simp add: scenario_A_mapping_def)
  have e: "filter (\<lambda>(k', n'). get (parent n') = None) scenario_A_mapping
             = [(''root'', plain_node Null [''m1''] Absent)]"
    by (simp add: scenario_A_mapping_def plain_node_def get_def)
  show ?thesis
    using a b e root_selection [OF a b e] root_selection [OF a' b e]
    by simp
qed

section \<open>The filter of the loop body\<close>


lemma content_message_truthy: "get (content msg) = Some c \<Longrightarrow> message_truthy msg"
  by (auto simp: message_truthy_def get_def)



section \<open>The traversal\<close>

lemma selected_root_traverse:
  "mapping convo = Val m \<Longrightarrow> selected_root m root_id
   \<Longrightarrow> get_conversation_messages convo = traverse m root_id []"
  by (auto simp: get_conversation_messages_def selected_root_def)


lemma first_child_child_ids: "first_child node = Some c \<Longrightarrow> \<exists>cs. child_ids node = c # cs"
  by (auto simp: first_child_def child_ids_def get_default_def get_def
      split: field.splits option.splits list.splits)

lemma child_rel_iff:
  "(k, c) \<in> child_rel m \<longleftrightarrow> (\<exists>node. (k, node) \<in> set m \<and> c \<in> set (child_ids node))"
  by (auto simp: child_rel_def child_edges_def)

lemma first_child_edge:
  "map_of m k = Some node \<Longrightarrow> first_child node = Some c \<Longrightarrow> (k, c) \<in> child_rel m"
  by (auto simp: child_rel_iff dest!: map_of_SomeD first_child_child_ids)

lemma traverse_returns:
  assumes "acyclic (child_rel m)"
  shows "\<exists>r. traverse m k acc = Some r"
proof -
  have "finite (child_rel m)" by (simp add: child_rel_def)
  with assms have "wf ((child_rel m)\<inverse>)" by (intro finite_acyclic_wf_converse)
  then show ?thesis
  proof (induction k arbitrary: acc rule: wf_induct_rule)
    case (less k)
    show ?case
    proof (cases "map_of m k")
      case None
      then show ?thesis by (subst traverse.simps) simp
    next
      case (Some node)
      show ?thesis
      proof (cases "visit node")
        case (Inl e)
        with Some show ?thesis by (subst traverse.simps) simp
      next
        case (Inr blocks)
        show ?thesis
        proof (cases "first_child node")
          case None
          with Some Inr show ?thesis by (subst traverse.simps) simp
        next
          case (Some c)
          with \<open>map_of m k = Some node\<close> have "(c, k) \<in> (child_rel m)\<inverse>"
            by (simp add: first_child_edge)
          then obtain r where "traverse m c (acc @ blocks) = Some r"
            using less.IH by blast
          with Some Inr \<open>map_of m k = Some node\<close> show ?thesis
            by (subst traverse.simps) simp
        qed
      qed
    qed
  qed
qed

lemma traverse_main_line_aux:
  "traverse m k acc = Some y \<Longrightarrow>
     (\<forall>msgs. y = Inr msgs \<longrightarrow>
        (\<exists>line. main_line m k line \<and> msgs = acc @ concat (map (node_blocks m) line)))"
proof (induction rule: traverse.raw_induct [rotated 1, consumes 1])
  case (1 traverse m k acc y)
  show ?case
  proof (cases "map_of m k")
    case None
    with 1(2) show ?thesis by (auto intro: main_line.absent)
  next
    case (Some node)
    note node = this
    show ?thesis
    proof (cases "visit node")
      case (Inl e)
      with node 1(2) show ?thesis by auto
    next
      case (Inr blocks)
      then have nb: "node_blocks m k = blocks" using node by (simp add: node_blocks_def)
      show ?thesis
      proof (cases "first_child node")
        case None
        have "main_line m k [k]" using node None by (rule main_line.leaf)
        with node Inr None 1(2) nb show ?thesis by auto
      next
        case (Some c)
        with node Inr 1(2) have t: "traverse m c (acc @ blocks) = Some y" by simp
        show ?thesis
        proof (intro allI impI)
          fix msgs assume "y = Inr msgs"
          with 1(1) [OF t] obtain line where
            l: "main_line m c line" and m: "msgs = (acc @ blocks) @ concat (map (node_blocks m) line)"
            by blast
          have "main_line m k (k # line)" using node Some l by (rule main_line.step)
          with m nb show "\<exists>line. main_line m k line \<and> msgs = acc @ concat (map (node_blocks m) line)"
            by (intro exI [of _ "k # line"]) simp
        qed
      qed
    qed
  qed
qed

lemma traverse_main_line:
  "traverse m k [] = Some (Inr msgs) \<Longrightarrow>
     \<exists>line. main_line m k line \<and> msgs = concat (map (node_blocks m) line)"
  using traverse_main_line_aux [of m k "[]" "Inr msgs"] by simp

lemma loop_reaches_traverse:
  "loop_reaches m k acc k' acc' \<Longrightarrow> traverse m k acc = traverse m k' acc'"
proof (induction rule: loop_reaches.induct)
  case start
  show ?case by simp
next
  case (iterate k' acc' node blocks c)
  have "traverse m k' acc' = traverse m c (acc' @ blocks)"
    using iterate.hyps(2,3,4) by (subst traverse.simps) simp
  with iterate.IH show ?case by simp
qed

lemma self_loop_no_result:
  "traverse m k acc = Some y \<Longrightarrow> m = self_loop_mapping \<Longrightarrow> k = ''x'' \<Longrightarrow> False"
proof (induction rule: traverse.raw_induct [rotated 1, consumes 1])
  case (1 traverse m k acc y)
  have "map_of self_loop_mapping ''x'' = Some (plain_node Null [''x''] Absent)"
    by (simp add: self_loop_mapping_def)
  moreover have "visit (plain_node Null [''x''] Absent) = Inr []"
    by (simp add: visit_def plain_node_def get_def)
  moreover have "first_child (plain_node Null [''x''] Absent) = Some ''x''"
    by (simp add: first_child_def plain_node_def get_default_def)
  ultimately have "traverse m k (acc @ []) = Some y"
    using 1(2) 1(3) 1(4) by simp
  then show False using 1(1) 1(3) 1(4) by blast
qed

lemma self_loop_diverges: "get_conversation_messages self_loop = None"
proof -
  have "find_root self_loop_mapping = Some ''x''"
    by (simp add: find_root_def self_loop_mapping_def plain_node_def get_def)
  then have "get_conversation_messages self_loop = traverse self_loop_mapping ''x'' []"
    by (simp add: get_conversation_messages_def self_loop_def)
  moreover have "traverse self_loop_mapping ''x'' [] = None"
    using self_loop_no_result [of self_loop_mapping "''x''" "[]"]
    by (cases "traverse self_loop_mapping ''x'' []") auto
  ultimately show ?thesis by simp
qed

text \<open>
  C9. The traversal performs no cycle detection: on a node that lists itself as its child
  it never returns. When the child pointers of the mapping form no cycle, the loop ends
  from every identifier and every list of messages (with a result or with an exception),
  and so \<^verbatim>\<open>get_conversation_messages\<close> returns.
\<close>

theorem traversal_terminates:
  "(mapping convo = Val m \<and> acyclic (child_rel m) \<longrightarrow>
      (\<exists>r. traverse m k acc = Some r) \<and> (\<exists>r. get_conversation_messages convo = Some r))
   \<and> get_conversation_messages self_loop = None"
proof (intro conjI impI)
  assume a: "mapping convo = Val m \<and> acyclic (child_rel m)"
  then show "\<exists>r. traverse m k acc = Some r" by (simp add: traverse_returns)
  have t: "\<exists>r. traverse m k' [] = Some r" for k' using a by (simp add: traverse_returns)
  show "\<exists>r. get_conversation_messages convo = Some r"
  proof (cases "find_root m")
    case (Some k')
    with a t [of k'] show ?thesis by (simp add: get_conversation_messages_def)
  next
    case None
    show ?thesis
    proof (cases "fallback_root m")
      case (Inl e)
      with a None show ?thesis by (simp add: get_conversation_messages_def)
    next
      case (Inr v)
      with a None t show ?thesis
        by (cases v) (auto simp: get_conversation_messages_def split: option.splits)
    qed
  qed
next
  show "get_conversation_messages self_loop = None" by (rule self_loop_diverges)
qed

lemma scenario_A_acyclic: "acyclic (child_rel scenario_A_mapping)"
  by code_simp

theorem traversal_terminates_witness:
  "mapping scenario_A = Val scenario_A_mapping
   \<and> acyclic (child_rel scenario_A_mapping)
   \<and> (\<exists>r. traverse scenario_A_mapping ''root'' [] = Some r)
   \<and> (\<exists>r. get_conversation_messages scenario_A = Some r)"
proof -
  have a: "mapping scenario_A = Val scenario_A_mapping" by (simp add: scenario_A_def)
  show ?thesis
    using a scenario_A_acyclic
      traversal_terminates [of scenario_A scenario_A_mapping "''root''" "[]"]
    by simp
qed

section \<open>Author access\<close>

lemma visit_KeyError_iff:
  "visit node = Inl KeyError \<longleftrightarrow>
     (\<exists>msg c. get (message node) = Some msg \<and> get (content msg) = Some c \<and> content_truthy c
        \<and> (author msg = Absent \<or> (\<exists>a. author msg = Val a \<and> role a = Absent)))"
  using content_message_truthy
  by (auto simp: visit_def message_author_role_def subscript_def join_parts_def
      split: option.splits sum.splits if_splits field.splits)

text \<open>
  C10. The loop body reads \<^verbatim>\<open>message['author']['role']\<close> by subscript whenever the message
  has a truthy content: the visit of a node raises \<^verbatim>\<open>KeyError\<close> exactly when the node
  has such a message and the \<^verbatim>\<open>author\<close> key, or the \<^verbatim>\<open>role\<close> key of the author, is
  absent. When the loop reaches such a node the exception leaves
  \<^verbatim>\<open>get_conversation_messages\<close>: the node is not skipped and no list is returned.
\<close>

theorem author_access_not_defensive:
  "(visit node = Inl KeyError \<longleftrightarrow>
      (\<exists>msg c. get (message node) = Some msg \<and> get (content msg) = Some c \<and> content_truthy c
         \<and> (author msg = Absent \<or> (\<exists>a. author msg = Val a \<and> role a = Absent))))
   \<and> (mapping convo = Val m \<and> selected_root m root_id \<and> loop_reaches m root_id [] k acc
        \<and> map_of m k = Some node \<and> visit node = Inl KeyError
        \<longrightarrow> get_conversation_messages convo = Some (Inl KeyError))"
proof (intro conjI impI)
  show "visit node = Inl KeyError \<longleftrightarrow>
      (\<exists>msg c. get (message node) = Some msg \<and> get (content msg) = Some c \<and> content_truthy c
         \<and> (author msg = Absent \<or> (\<exists>a. author msg = Val a \<and> role a = Absent)))"
    by (rule visit_KeyError_iff)
next
  assume a: "mapping convo = Val m \<and> selected_root m root_id \<and> loop_reaches m root_id [] k acc
        \<and> map_of m k = Some node \<and> visit node = Inl KeyError"
  then have "get_conversation_messages convo = traverse m root_id []"
    by (simp add: selected_root_traverse)
  also have "\<dots> = traverse m k acc" using a by (simp add: loop_reaches_traverse)
  also have "\<dots> = Some (Inl KeyError)" using a by (subst traverse.simps) simp
  finally show "get_conversation_messages convo = Some (Inl KeyError)" .
qed

theorem author_access_not_defensive_witness:
  "visit (plain_node (Val ''root'') [] (Val authorless)) = Inl KeyError
   \<and> mapping authorless_convo = Val authorless_mapping
   \<and> selected_root authorless_mapping ''root''
   \<and> loop_reaches authorless_mapping ''root'' [] ''m1'' []
   \<and> map_of authorless_mapping ''m1'' = Some (plain_node (Val ''root'') [] (Val authorless))
   \<and> get_conversation_messages authorless_convo = Some (Inl KeyError)"
proof -
  let ?n = "plain_node (Val ''root'') [] (Val authorless)"
  have v: "visit ?n = Inl KeyError"
    by (simp add: visit_def plain_node_def authorless_def get_def message_truthy_def
        content_truthy_def message_author_role_def)
  have a: "mapping authorless_convo = Val authorless_mapping"
    by (simp add: authorless_convo_def)
  have s: "selected_root authorless_mapping ''root''"
    by (simp add: selected_root_def find_root_def authorless_mapping_def plain_node_def get_def)
  have n: "map_of authorless_mapping ''m1'' = Some ?n"
    by (simp add: authorless_mapping_def)
  have "loop_reaches authorless_mapping ''root'' [] ''m1'' ([] @ [])"
  proof (rule loop_reaches.iterate [OF loop_reaches.start])
    show "map_of authorless_mapping ''root'' = Some (plain_node Null [''m1''] Absent)"
      by (simp add: authorless_mapping_def)
    show "visit (plain_node Null [''m1''] Absent) = Inr []"
      by (simp add: visit_def plain_node_def get_def)
    show "first_child (plain_node Null [''m1''] Absent) = Some ''m1''"
      by (simp add: first_child_def plain_node_def get_default_def)
  qed
  then have l: "loop_reaches authorless_mapping ''root'' [] ''m1'' []" by simp
  show ?thesis
    using v a s l n
      author_access_not_defensive [of ?n authorless_convo authorless_mapping "''root''" "''m1''" "[]"]
    by simp
qed

section \<open>The blocks\<close>








section \<open>The main line\<close>

lemma main_line_descendants:
  "main_line m k line \<Longrightarrow> p \<in> set line \<Longrightarrow> (k, p) \<in> (child_rel m)\<^sup>*"
proof (induction rule: main_line.induct)
  case (absent k)
  then show ?case by simp
next
  case (leaf k node)
  then show ?case by simp
next
  case (step k node c line)
  show ?case
  proof (cases "p = k")
    case True
    then show ?thesis by simp
  next
    case False
    with step.prems have "p \<in> set line" by simp
    then have "(c, p) \<in> (child_rel m)\<^sup>*" by (rule step.IH)
    moreover have "(k, c) \<in> child_rel m" using step.hyps(1,2) by (rule first_child_edge)
    ultimately show ?thesis by (rule converse_rtrancl_into_rtrancl [rotated])
  qed
qed

lemma main_line_hd: "main_line m k line \<Longrightarrow> line \<noteq> [] \<Longrightarrow> hd line = k"
  by (induction rule: main_line.induct) simp_all

lemma main_line_successively:
  "main_line m k line \<Longrightarrow> successively (\<lambda>p c. (p, c) \<in> child_rel m) line"
proof (induction rule: main_line.induct)
  case (absent k)
  show ?case by simp
next
  case (leaf k node)
  show ?case by simp
next
  case (step k node c line)
  have e: "(k, c) \<in> child_rel m" using step.hyps(1,2) by (rule first_child_edge)
  show ?case
  proof (cases line)
    case Nil
    then show ?thesis by simp
  next
    case (Cons x xs)
    with main_line_hd [OF step.hyps(3)] have "x = c" by simp
    with Cons e step.IH show ?thesis by simp
  qed
qed

lemma single_parent:
  assumes "distinct (map snd (child_edges m))"
    and "(a, x) \<in> child_rel m" and "(b, x) \<in> child_rel m"
  shows "a = b"
proof -
  from assms(1) have "inj_on snd (set (child_edges m))" by (simp add: distinct_map)
  with assms(2,3) have "(a, x) = (b, x)"
    unfolding child_rel_def by (intro inj_onD [of snd]) simp_all
  then show ?thesis by simp
qed

lemma children_distinct:
  "distinct (map snd (child_edges m)) \<Longrightarrow> (k, node) \<in> set m \<Longrightarrow> distinct (child_ids node)"
proof (induction m)
  case Nil
  then show ?case by simp
next
  case (Cons e m)
  obtain k' node' where e: "e = (k', node')" by (cases e)
  have s: "map snd (child_edges (e # m)) = child_ids node' @ map snd (child_edges m)"
    by (simp add: child_edges_def e comp_def)
  from Cons.prems(1) have d: "distinct (child_ids node')" and d': "distinct (map snd (child_edges m))"
    unfolding s by simp_all
  from Cons.prems(2) e consider "node = node'" | "(k, node) \<in> set m" by auto
  then show ?case
  proof cases
    case 1
    with d show ?thesis by simp
  next
    case 2
    with d' show ?thesis by (rule Cons.IH)
  qed
qed

lemma common_descendant:
  assumes sp: "\<And>a b x. (a, x) \<in> r \<Longrightarrow> (b, x) \<in> r \<Longrightarrow> a = b"
  shows "(a, x) \<in> r\<^sup>* \<Longrightarrow> (b, x) \<in> r\<^sup>* \<Longrightarrow> (a, b) \<in> r\<^sup>* \<or> (b, a) \<in> r\<^sup>*"
proof (induction rule: rtrancl_induct)
  case base
  then show ?case by simp
next
  case (step y z)
  from step.prems show ?case
  proof (cases rule: rtranclE)
    case base
    with step.hyps show ?thesis by auto
  next
    case (step y')
    with sp [of y' z y] \<open>(y, z) \<in> r\<close> have "y' = y" by simp
    with step(1) have "(b, y) \<in> r\<^sup>*" by simp
    then show ?thesis by (rule step.IH)
  qed
qed

lemma sibling_subtrees_disjoint:
  assumes sp: "\<And>a b x. (a, x) \<in> r \<Longrightarrow> (b, x) \<in> r \<Longrightarrow> a = b"
    and ac: "acyclic r"
    and a: "(p, a) \<in> r" and b: "(p, b) \<in> r" and ne: "a \<noteq> b"
    and xa: "(a, x) \<in> r\<^sup>*" and xb: "(b, x) \<in> r\<^sup>*"
  shows False
proof -
  have up: False if "(c, d) \<in> r\<^sup>*" and "c \<noteq> d" and "(p, c) \<in> r" and "(p, d) \<in> r" for c d
  proof -
    from that(1,2) have "(c, d) \<in> r\<^sup>+" by (simp add: rtrancl_eq_or_trancl)
    then obtain z where z: "(c, z) \<in> r\<^sup>*" and zd: "(z, d) \<in> r" by (auto dest: tranclD2)
    from sp [OF zd that(4)] have "z = p" .
    with z that(3) have "(p, p) \<in> r\<^sup>+" by (simp add: rtrancl_into_trancl2)
    with ac show False by (simp add: acyclic_def)
  qed
  from common_descendant [of r a x b, OF sp xa xb] show False
  proof
    assume "(a, b) \<in> r\<^sup>*"
    from up [OF this ne a b] show False .
  next
    assume "(b, a) \<in> r\<^sup>*"
    from up [OF this ne [symmetric] b a] show False .
  qed
qed

lemma child_ids_first: "child_ids node = c # cs \<Longrightarrow> first_child node = Some c"
  by (auto simp: first_child_def child_ids_def get_default_def get_def split: field.splits)

text \<open>
  C4. Let the selected root have the children \<open>A\<close> and \<open>B\<close>, in a mapping that is a tree
  (no identifier is listed as a child twice, and the child pointers form no cycle). Then
  \<^verbatim>\<open>get_conversation_messages\<close> returns, and a returned list is the concatenation, in
  order, of the blocks of the root and of the nodes of the main line from \<open>A\<close>: each node
  of that line is the first listed child of the one before it, all of them descend from
  \<open>A\<close>, and no node of the subtree of \<open>B\<close> is among the nodes that contribute.
\<close>

theorem main_line_only:
  assumes "mapping convo = Val m" and "selected_root m root_id"
    and "map_of m root_id = Some root_node" and "child_ids root_node = [A, B]"
    and "distinct (map snd (child_edges m))" and "acyclic (child_rel m)"
  shows "\<exists>res. get_conversation_messages convo = Some res \<and>
           (\<forall>msgs. res = Inr msgs \<longrightarrow>
              (\<exists>line. main_line m A line
                 \<and> msgs = concat (map (node_blocks m) (root_id # line))
                 \<and> successively (\<lambda>p c. (p, c) \<in> child_rel m) (root_id # line)
                 \<and> (\<forall>p \<in> set line. (A, p) \<in> (child_rel m)\<^sup>*)
                 \<and> (\<forall>x. (B, x) \<in> (child_rel m)\<^sup>* \<longrightarrow> x \<notin> set (root_id # line))))"
proof -
  let ?r = "child_rel m"
  have g: "get_conversation_messages convo = traverse m root_id []"
    using assms(1,2) by (rule selected_root_traverse)
  from traverse_returns [OF assms(6)] obtain res where res: "traverse m root_id [] = Some res"
    by blast
  have fc: "first_child root_node = Some A" using assms(4) by (rule child_ids_first)
  have in_m: "(root_id, root_node) \<in> set m" using assms(3) by (rule map_of_SomeD)
  have eA: "(root_id, A) \<in> ?r" and eB: "(root_id, B) \<in> ?r"
    using in_m assms(4) by (auto simp: child_rel_iff)
  have "distinct (child_ids root_node)" using assms(5) in_m by (rule children_distinct)
  with assms(4) have ne: "A \<noteq> B" by simp
  have sp: "a = b" if "(a, x) \<in> ?r" and "(b, x) \<in> ?r" for a b x
    using assms(5) that by (rule single_parent)
  have "\<exists>line. main_line m A line
          \<and> msgs = concat (map (node_blocks m) (root_id # line))
          \<and> successively (\<lambda>p c. (p, c) \<in> ?r) (root_id # line)
          \<and> (\<forall>p \<in> set line. (A, p) \<in> ?r\<^sup>*)
          \<and> (\<forall>x. (B, x) \<in> ?r\<^sup>* \<longrightarrow> x \<notin> set (root_id # line))"
    if "res = Inr msgs" for msgs
  proof -
    from res that have "traverse m root_id [] = Some (Inr msgs)" by simp
    from traverse_main_line [OF this] obtain line0 where
      l0: "main_line m root_id line0" and msgs: "msgs = concat (map (node_blocks m) line0)"
      by blast
    from l0 assms(3) fc obtain line where
      line0: "line0 = root_id # line" and l: "main_line m A line"
      by (cases rule: main_line.cases) auto
    have desc: "(A, p) \<in> ?r\<^sup>*" if "p \<in> set line" for p
      using l that by (rule main_line_descendants)
    have succ: "successively (\<lambda>p c. (p, c) \<in> ?r) (root_id # line)"
      using main_line_successively [OF l0] line0 by simp
    have disj: "x \<notin> set (root_id # line)" if xb: "(B, x) \<in> ?r\<^sup>*" for x
    proof
      assume "x \<in> set (root_id # line)"
      then consider "x = root_id" | "x \<in> set line" by auto
      then show False
      proof cases
        case 1
        with xb eB have "(root_id, root_id) \<in> ?r\<^sup>+" by (simp add: rtrancl_into_trancl2)
        with assms(6) show False by (simp add: acyclic_def)
      next
        case 2
        then have "(A, x) \<in> ?r\<^sup>*" by (rule desc)
        with sp assms(6) eA eB ne show False using xb
          by (rule sibling_subtrees_disjoint [of ?r root_id A B x])
      qed
    qed
    from l msgs line0 succ desc disj show ?thesis by blast
  qed
  with g res show ?thesis by simp
qed

theorem main_line_only_witness:
  "mapping branching = Val branching_mapping
   \<and> selected_root branching_mapping ''root''
   \<and> map_of branching_mapping ''root'' = Some (plain_node Null [''A'', ''B''] Absent)
   \<and> child_ids (plain_node Null [''A'', ''B''] Absent) = [''A'', ''B'']
   \<and> distinct (map snd (child_edges branching_mapping))
   \<and> acyclic (child_rel branching_mapping)
   \<and> get_conversation_messages branching
       = Some (Inr [block ''User'' ''first question'', block ''Assistant'' ''first answer''])
   \<and> (\<exists>line. main_line branching_mapping ''A'' line
         \<and> [block ''User'' ''first question'', block ''Assistant'' ''first answer'']
             = concat (map (node_blocks branching_mapping) (''root'' # line))
         \<and> ''B'' \<notin> set (''root'' # line) \<and> ''B1'' \<notin> set (''root'' # line))"
proof -
  let ?root = "plain_node Null [''A'', ''B''] Absent"
  let ?msgs = "[block ''User'' ''first question'', block ''Assistant'' ''first answer'']"
  have h1: "mapping branching = Val branching_mapping" by (simp add: branching_def)
  have h2: "selected_root branching_mapping ''root''"
    by (simp add: selected_root_def find_root_def branching_mapping_def plain_node_def get_def)
  have h3: "map_of branching_mapping ''root'' = Some ?root"
    by (simp add: branching_mapping_def)
  have h4: "child_ids ?root = [''A'', ''B'']"
    by (simp add: child_ids_def plain_node_def get_def)
  have h5: "distinct (map snd (child_edges branching_mapping))" by code_simp
  have h6: "acyclic (child_rel branching_mapping)" by code_simp
  have r: "get_conversation_messages branching = Some (Inr ?msgs)" by code_simp
  have b0: "(''B'', ''B'') \<in> (child_rel branching_mapping)\<^sup>*" by simp
  have "(''B'', ''B1'') \<in> child_rel branching_mapping"
    by (simp add: child_rel_def child_edges_def branching_mapping_def plain_node_def
        child_ids_def get_def)
  then have b1: "(''B'', ''B1'') \<in> (child_rel branching_mapping)\<^sup>*" by (rule r_into_rtrancl)
  from main_line_only [OF h1 h2 h3 h4 h5 h6] r obtain line where
    "main_line branching_mapping ''A'' line"
    "?msgs = concat (map (node_blocks branching_mapping) (''root'' # line))"
    "\<forall>x. (''B'', x) \<in> (child_rel branching_mapping)\<^sup>* \<longrightarrow> x \<notin> set (''root'' # line)"
    by auto
  with b0 b1 have "\<exists>line. main_line branching_mapping ''A'' line
         \<and> ?msgs = concat (map (node_blocks branching_mapping) (''root'' # line))
         \<and> ''B'' \<notin> set (''root'' # line) \<and> ''B1'' \<notin> set (''root'' # line)"
    by blast
  with h1 h2 h3 h4 h5 h6 r show ?thesis by blast
qed

section \<open>The fallback root\<close>

lemma insort_key_map:
  "insort_key g (f x) (map f xs) = map f (insort_key (\<lambda>x. g (f x)) x xs)"
  by (induction xs) simp_all

lemma sort_key_map: "sort_key g (map f xs) = map f (sort_key (\<lambda>x. g (f x)) xs)"
  by (induction xs) (simp_all add: insort_key_map)

lemma sort_key_zip: "map fst (sort_key snd (zip xs (map f xs))) = sort_key f xs"
proof -
  have "zip xs (map f xs) = map (\<lambda>x. (x, f x)) xs" by (induction xs) simp_all
  then show ?thesis by (simp add: sort_key_map comp_def)
qed

lemma hd_insort_key:
  "hd (insort_key f x xs) = (if xs = [] \<or> f x \<le> f (hd xs) then x else hd xs)"
  by (cases xs) simp_all

text \<open>The head of a stable sort is the first element among those with the least key.\<close>

lemma sort_key_hd_decomp:
  fixes f :: "'a \<Rightarrow> real"
  assumes "xs \<noteq> []"
  shows "\<exists>pre post. xs = pre @ hd (sort_key f xs) # post
           \<and> (\<forall>y \<in> set pre. f (hd (sort_key f xs)) < f y)
           \<and> (\<forall>y \<in> set post. f (hd (sort_key f xs)) \<le> f y)"
  using assms
proof (induction xs)
  case Nil
  then show ?case by simp
next
  case (Cons x xs)
  show ?case
  proof (cases "xs = []")
    case True
    then show ?thesis by (intro exI [of _ "[]"]) simp
  next
    case False
    let ?h = "hd (sort_key f xs)"
    from Cons.IH [OF False] obtain pre post where
      xs: "xs = pre @ ?h # post" and pre: "\<forall>y \<in> set pre. f ?h < f y"
      and post: "\<forall>y \<in> set post. f ?h \<le> f y"
      by blast
    have ne: "sort_key f xs \<noteq> []" using False by (metis length_sort length_0_conv)
    show ?thesis
    proof (cases "f x \<le> f ?h")
      case True
      with ne have h: "hd (sort_key f (x # xs)) = x" by (simp add: hd_insort_key)
      have "\<forall>y \<in> set xs. f x \<le> f y"
      proof
        fix y assume "y \<in> set xs"
        then have "y \<in> set pre \<or> y = ?h \<or> y \<in> set post" by (subst (asm) xs) auto
        with pre post True show "f x \<le> f y" by fastforce
      qed
      with h show ?thesis by (intro exI [of _ "[]"] exI [of _ xs]) simp
    next
      case False
      with ne have h: "hd (sort_key f (x # xs)) = ?h" by (simp add: hd_insort_key)
      have "x # xs = (x # pre) @ ?h # post" using xs by simp
      moreover have "\<forall>y \<in> set (x # pre). f ?h < f y" using pre False by auto
      ultimately show ?thesis unfolding h using post by blast
    qed
  qed
qed

lemma filter_map_decomp:
  "filter P (map f xs) = ys @ z # zs \<Longrightarrow>
     \<exists>pre x post. xs = pre @ x # post \<and> f x = z
        \<and> filter P (map f pre) = ys \<and> filter P (map f post) = zs"
proof (induction xs arbitrary: ys)
  case Nil
  then show ?case by simp
next
  case (Cons a xs)
  show ?case
  proof (cases "P (f a)")
    case False
    with Cons.prems have "filter P (map f xs) = ys @ z # zs" by simp
    from Cons.IH [OF this] obtain pre x post where
      "xs = pre @ x # post" "f x = z" "filter P (map f pre) = ys" "filter P (map f post) = zs"
      by blast
    with False show ?thesis by (intro exI [of _ "a # pre"] exI [of _ x] exI [of _ post]) simp
  next
    case True
    with Cons.prems have e: "f a # filter P (map f xs) = ys @ z # zs" by simp
    show ?thesis
    proof (cases ys)
      case Nil
      with e have "f a = z" and "filter P (map f xs) = zs" by simp_all
      with Nil show ?thesis by (intro exI [of _ "[]"] exI [of _ a] exI [of _ xs]) simp
    next
      case (Cons y ys')
      with e have "f a = y" and "filter P (map f xs) = ys' @ z # zs" by simp_all
      from Cons.IH [OF this(2)] obtain pre x post where
        "xs = pre @ x # post" "f x = z" "filter P (map f pre) = ys'" "filter P (map f post) = zs"
        by blast
      with True Cons \<open>f a = y\<close> show ?thesis
        by (intro exI [of _ "a # pre"] exI [of _ x] exI [of _ post]) simp
    qed
  qed
qed

lemma sequence_all_Inr: "sequence (map (\<lambda>x. Inr (f x)) xs) = Inr (map f xs)"
  by (induction xs) simp_all

lemma those_all_Some: "those (map (\<lambda>x. Some (f x)) xs) = Some (map f xs)"
  by (induction xs) simp_all

lemma timestamp_key:
  "message_bearing n \<Longrightarrow> timestamp n = Some t \<Longrightarrow> create_time_key n = Inr (Some t)"
  by (auto simp: message_bearing_def timestamp_def create_time_key_def subscript_def get_def
      split: field.splits)

lemma find_root_None: "(\<forall>(k, n) \<in> set m. get (parent n) \<noteq> None) \<Longrightarrow> find_root m = None"
  by (auto simp: find_root_def find_None_iff)

lemma fallback_root_sorted:
  assumes "list_all (\<lambda>n. message_bearing n \<longrightarrow> timestamp n \<noteq> None) (map snd m)"
  shows "fallback_root m =
           (case sort_key (\<lambda>n. case timestamp n of None \<Rightarrow> 0 | Some t \<Rightarrow> t)
                   (filter message_bearing (map snd m)) of
              [] \<Rightarrow> Inr None
            | n # _ \<Rightarrow> (case subscript (node_id n) of Inl e \<Rightarrow> Inl e | Inr i \<Rightarrow> Inr (Some i)))"
proof -
  let ?ts = "\<lambda>n. case timestamp n of None \<Rightarrow> 0 | Some t \<Rightarrow> t"
  let ?cands = "filter message_bearing (map snd m)"
  have c: "create_time_key n = Inr (Some (?ts n))" if "n \<in> set ?cands" for n
  proof -
    from that assms have "message_bearing n" and "timestamp n \<noteq> None"
      by (auto simp: list_all_iff)
    then show ?thesis by (auto intro: timestamp_key)
  qed
  then have "map create_time_key ?cands = map (\<lambda>n. Inr (Some (?ts n))) ?cands"
    by (intro map_cong) simp_all
  then have s: "sequence (map create_time_key ?cands) = Inr (map (\<lambda>n. Some (?ts n)) ?cands)"
    by (simp only: sequence_all_Inr)
  have p: "py_sorted ?cands (map (\<lambda>n. Some (?ts n)) ?cands) = Inr (sort_key ?ts ?cands)"
    by (simp add: py_sorted_def those_all_Some sort_key_zip)
  show ?thesis unfolding fallback_root_def Let_def s by (simp add: p)
qed

text \<open>
  C1, amended. In a mapping (a dictionary: its keys are distinct) where every node has a
  non-null parent and some node carries a non-empty message, let every node that carries
  one have a numeric timestamp in it and an \<^verbatim>\<open>id\<close> key equal to the key of the node. Then
  the root is the node \<open>n\<close> under \<open>k\<close> that comes first, in the order of the mapping, among
  the message-carrying nodes with the smallest timestamp, and the traversal starts from
  that node.
\<close>

theorem fallback_root_selection:
  assumes "mapping convo = Val m" and "distinct (map fst m)"
    and "list_all (\<lambda>(k, n). get (parent n) \<noteq> None) m"
    and "list_ex (\<lambda>(k, n). message_bearing n) m"
    and "list_all (\<lambda>(k, n). message_bearing n \<longrightarrow> timestamp n \<noteq> None \<and> node_id n = Val k) m"
  shows "\<exists>pre k n post t.
           m = pre @ (k, n) # post \<and> message_bearing n \<and> timestamp n = Some t
           \<and> list_all (\<lambda>(k', n'). message_bearing n' \<longrightarrow> (\<exists>t'. timestamp n' = Some t' \<and> t < t')) pre
           \<and> list_all (\<lambda>(k', n'). message_bearing n' \<longrightarrow> (\<exists>t'. timestamp n' = Some t' \<and> t \<le> t')) post
           \<and> find_root m = None \<and> fallback_root m = Inr (Some (Some k))
           \<and> get_conversation_messages convo = traverse m k []
           \<and> map_of m k = Some n"
proof -
  let ?ts = "\<lambda>n. case timestamp n of None \<Rightarrow> 0 | Some t \<Rightarrow> t"
  let ?cands = "filter message_bearing (map snd m)"
  let ?h = "hd (sort_key ?ts ?cands)"
  have stamps: "timestamp n = Some (?ts n)" and ids: "node_id n = Val k"
    if "(k, n) \<in> set m" and "message_bearing n" for k n
    using assms(5) that by (auto simp: list_all_iff)
  have fr: "find_root m = None"
    using assms(3) by (intro find_root_None) (simp add: list_all_iff)
  from assms(4) have ne: "?cands \<noteq> []"
    by (force simp: list_ex_iff filter_empty_conv)
  from sort_key_hd_decomp [OF ne, of ?ts] obtain cpre cpost where
    dec: "?cands = cpre @ ?h # cpost"
    and lt: "\<forall>y \<in> set cpre. ?ts ?h < ?ts y" and le: "\<forall>y \<in> set cpost. ?ts ?h \<le> ?ts y"
    by blast
  from filter_map_decomp [OF dec] obtain pre e post where
    m: "m = pre @ e # post" and e: "snd e = ?h"
    and pre: "filter message_bearing (map snd pre) = cpre"
    and post: "filter message_bearing (map snd post) = cpost"
    by blast
  obtain k n where kn: "e = (k, n)" by (cases e)
  with e have n: "n = ?h" by simp
  have in_m: "(k, n) \<in> set m" using m kn by simp
  have "?h \<in> set ?cands" by (subst (2) dec) simp
  with n have mb: "message_bearing n" by simp
  have t: "timestamp n = Some (?ts n)" using in_m mb by (rule stamps)
  have i: "node_id n = Val k" using in_m mb by (rule ids)
  have p1: "list_all (\<lambda>(k', n'). message_bearing n' \<longrightarrow>
              (\<exists>t'. timestamp n' = Some t' \<and> ?ts n < t')) pre"
    unfolding list_all_iff
  proof (intro ballI, clarify)
    fix k' n' assume a: "(k', n') \<in> set pre" and b: "message_bearing n'"
    then have "n' \<in> set cpre" unfolding pre [symmetric] by force
    with lt n have "?ts n < ?ts n'" by simp
    moreover have "timestamp n' = Some (?ts n')" using a b m by (intro stamps [of k']) simp_all
    ultimately show "\<exists>t'. timestamp n' = Some t' \<and> ?ts n < t'" by blast
  qed
  have p2: "list_all (\<lambda>(k', n'). message_bearing n' \<longrightarrow>
              (\<exists>t'. timestamp n' = Some t' \<and> ?ts n \<le> t')) post"
    unfolding list_all_iff
  proof (intro ballI, clarify)
    fix k' n' assume a: "(k', n') \<in> set post" and b: "message_bearing n'"
    then have "n' \<in> set cpost" unfolding post [symmetric] by force
    with le n have "?ts n \<le> ?ts n'" by simp
    moreover have "timestamp n' = Some (?ts n')" using a b m by (intro stamps [of k']) simp_all
    ultimately show "\<exists>t'. timestamp n' = Some t' \<and> ?ts n \<le> t'" by blast
  qed
  have "list_all (\<lambda>n. message_bearing n \<longrightarrow> timestamp n \<noteq> None) (map snd m)"
    using assms(5) by (auto simp: list_all_iff)
  from fallback_root_sorted [OF this]
  have fb: "fallback_root m = Inr (Some (Some k))"
  proof -
    have s: "sort_key ?ts ?cands \<noteq> []" using ne by (metis length_sort length_0_conv)
    then obtain x xs where x: "sort_key ?ts ?cands = x # xs" by (cases "sort_key ?ts ?cands") auto
    then have "x = n" using n by simp
    with x i \<open>fallback_root m = _\<close> show ?thesis by (simp add: subscript_def)
  qed
  have g: "get_conversation_messages convo = traverse m k []"
    using assms(1) fr fb by (simp add: get_conversation_messages_def)
  have mo: "map_of m k = Some n" using assms(2) in_m by simp
  from m kn mb t p1 p2 fr fb g mo show ?thesis by blast
qed

theorem fallback_root_selection_witness:
  "mapping rootless = Val rootless_mapping
   \<and> distinct (map fst rootless_mapping)
   \<and> list_all (\<lambda>(k, n). get (parent n) \<noteq> None) rootless_mapping
   \<and> list_ex (\<lambda>(k, n). message_bearing n) rootless_mapping
   \<and> list_all (\<lambda>(k, n). message_bearing n \<longrightarrow> timestamp n \<noteq> None \<and> node_id n = Val k)
        rootless_mapping
   \<and> fallback_root rootless_mapping = Inr (Some (Some ''n2''))
   \<and> get_conversation_messages rootless = traverse rootless_mapping ''n2'' []
   \<and> get_conversation_messages rootless = Some (Inr [block ''Assistant'' ''earlier''])"
proof -
  have h1: "mapping rootless = Val rootless_mapping" by (simp add: rootless_def)
  have h2: "distinct (map fst rootless_mapping)" by (simp add: rootless_mapping_def)
  have h3: "list_all (\<lambda>(k, n). get (parent n) \<noteq> None) rootless_mapping" by code_simp
  have h4: "list_ex (\<lambda>(k, n). message_bearing n) rootless_mapping" by code_simp
  have h5: "list_all (\<lambda>(k, n). message_bearing n \<longrightarrow> timestamp n \<noteq> None \<and> node_id n = Val k)
              rootless_mapping"
    by code_simp
  have f: "fallback_root rootless_mapping = Inr (Some (Some ''n2''))" by code_simp
  have r: "get_conversation_messages rootless = Some (Inr [block ''Assistant'' ''earlier''])"
    by code_simp
  from fallback_root_selection [OF h1 h2 h3 h4 h5] obtain k where
    "fallback_root rootless_mapping = Inr (Some (Some k))"
    "get_conversation_messages rootless = traverse rootless_mapping k []"
    by blast
  with f have "get_conversation_messages rootless = traverse rootless_mapping ''n2'' []"
    by simp
  with h1 h2 h3 h4 h5 f r show ?thesis by blast
qed

text \<open>
  C1 as stated fails on a node that has no \<^verbatim>\<open>id\<close> key: the only node has a non-null
  parent and a message with the timestamp 1, the traversal from it would give its block,
  and the function raises \<^verbatim>\<open>KeyError\<close>.
\<close>

theorem fallback_root_counterexample:
  "get (parent orphan_node) \<noteq> None
   \<and> message_bearing orphan_node
   \<and> timestamp orphan_node = Some 1
   \<and> traverse orphan_mapping ''a'' [] = Some (Inr [block ''User'' ''Hello''])
   \<and> get_conversation_messages orphan = Some (Inl KeyError)
   \<and> get_conversation_messages orphan \<noteq> traverse orphan_mapping ''a'' []"
  by code_simp

section \<open>The loop over the conversations\<close>








end
